theory Spec2Isabelle
  imports Main "HOL-Library.Sublist" "HOL-Library.Char_ord" "HOL-Library.List_Lexorder"
    "HOL-Library.Monad_Syntax"
begin

section \<open>Characters, strings and paths\<close>

text \<open>
  A Python \<open>str\<close> is a sequence of code points. The model keeps the code points below 256,
  one \<^typ>\<open>char\<close> each, so \<^typ>\<open>string\<close> stands for the text read from a file.
  \<open>isspace\<close> follows \<open>str.isspace\<close> on that range: the code points 9 to 13, 28 to 32,
  133 and 160.
\<close>

definition isspace :: "char \<Rightarrow> bool" where
  "isspace c = (let n = (of_char c :: nat)
     in (9 \<le> n \<and> n \<le> 13) \<or> (28 \<le> n \<and> n \<le> 32) \<or> n = 133 \<or> n = 160)"

text \<open>\<open>str.strip()\<close>: whitespace is removed at both ends.\<close>

definition strip :: "string \<Rightarrow> string" where
  "strip s = rev (dropWhile isspace (rev (dropWhile isspace s)))"

text \<open>\<open>str.lower()\<close> on the code points below 256.\<close>

definition lower_char :: "char \<Rightarrow> char" where
  "lower_char c = (let n = (of_char c :: nat)
     in if (65 \<le> n \<and> n \<le> 90) \<or> (192 \<le> n \<and> n \<le> 222 \<and> n \<noteq> 215)
        then char_of (n + 32) else c)"

definition lower :: "string \<Rightarrow> string" where
  "lower s = map lower_char s"

text \<open>
  A \<open>pathlib.Path\<close> is the list of its parts; an absolute path has the part \<open>/\<close> first.
  \<open>path_str\<close> is \<open>str(path)\<close>, \<open>path_name\<close> is \<open>path.name\<close> and \<open>path_suffix\<close> is
  \<open>path.suffix\<close>: the final component from its last dot on, when that dot is neither the
  first nor the last character of the component.
\<close>

type_synonym path = "string list"

text \<open>\<open>sep.join(parts)\<close>.\<close>

fun join_with :: "string \<Rightarrow> string list \<Rightarrow> string" where
  "join_with sep [] = []"
| "join_with sep [p] = p"
| "join_with sep (p # q # ps) = p @ sep @ join_with sep (q # ps)"

definition path_str :: "path \<Rightarrow> string" where
  "path_str p = (case p of [] \<Rightarrow> ''.''
     | r # ps \<Rightarrow> if r = ''/'' then ''/'' @ join_with ''/'' ps else join_with ''/'' p)"

definition path_name :: "path \<Rightarrow> string" where
  "path_name p = (if p = [] \<or> p = [''/''] then [] else last p)"

definition path_suffix :: "path \<Rightarrow> string" where
  "path_suffix p = (let name = path_name p; r = takeWhile (\<lambda>c. c \<noteq> CHR ''.'') (rev name)
     in if length r = length name then []
        else let k = length name - length r - 1
             in if 0 < k \<and> k < length name - 1 then drop k name else [])"

section \<open>The content scanner of \<open>process_file_content\<close>\<close>

text \<open>
  The local variables of the scanning loop (source lines 68 to 72). The index \<open>i\<close> of the
  source is the field \<open>idx\<close>; \<open>buffer\<close> holds the characters appended so far. The list
  \<open>lines\<close> of the source is never used and is left out.
\<close>

record scan_state =
  in_multiline_comment :: bool
  in_string :: bool
  string_char :: "char option"
  buffer :: string
  idx :: nat

definition init_state :: scan_state where
  "init_state = \<lparr>in_multiline_comment = False, in_string = False, string_char = None,
     buffer = [], idx = 0\<rparr>"

definition is_quote :: "char \<Rightarrow> bool" where
  "is_quote c = (c = CHR 0x22 \<or> c = CHR 0x27 \<or> c = CHR 0x60)"

text \<open>
  The inner loop of the line-comment branch (lines 90 and 91): advance while the index is
  in range and the character there is not a line feed.
\<close>

function skip_line :: "string \<Rightarrow> nat \<Rightarrow> nat" where
  "skip_line content k =
     (if k < length content \<and> content ! k \<noteq> CHR 0x0A then skip_line content (k + 1) else k)"
  by pat_completeness auto
termination
  by (relation "measure (\<lambda>(content, k). length content - k)") auto

declare skip_line.simps [simp del]

text \<open>
  One iteration of the outer loop (lines 75 to 113), for an index in range. The slice
  \<open>content[i : i + 2]\<close> is \<open>take 2 (drop i content)\<close>.
\<close>

definition step :: "string \<Rightarrow> scan_state \<Rightarrow> scan_state" where
  "step content st =
     (let k = idx st; two = take 2 (drop k content); c = content ! k
      in if two = ''/*'' \<and> \<not> in_string st
           then st\<lparr>in_multiline_comment := True, idx := k + 2\<rparr>
         else if two = ''*/'' \<and> in_multiline_comment st
           then st\<lparr>in_multiline_comment := False, idx := k + 2\<rparr>
         else if in_multiline_comment st
           then st\<lparr>idx := k + 1\<rparr>
         else if two = ''//'' \<and> \<not> in_string st
           then st\<lparr>idx := skip_line content k\<rparr>
         else if is_quote c \<and> (k = 0 \<or> content ! (k - 1) \<noteq> CHR 0x5C)
           then (if \<not> in_string st
                   then st\<lparr>in_string := True, string_char := Some c,
                          buffer := buffer st @ [c], idx := k + 1\<rparr>
                 else if Some c = string_char st
                   then st\<lparr>in_string := False, buffer := buffer st @ [c], idx := k + 1\<rparr>
                 else st\<lparr>buffer := buffer st @ [c], idx := k + 1\<rparr>)
         else if isspace c \<and> \<not> in_string st
           then (if buffer st \<noteq> [] \<and> \<not> isspace (last (buffer st))
                   then st\<lparr>buffer := buffer st @ '' '', idx := k + 1\<rparr>
                 else st\<lparr>idx := k + 1\<rparr>)
         else st\<lparr>buffer := buffer st @ [c], idx := k + 1\<rparr>)"

text \<open>
  The outer \<open>while i < len(content)\<close> loop (line 74). It is a partial function: \<open>None\<close>
  would mean that the loop never leaves.
\<close>

partial_function (option) loop :: "string \<Rightarrow> scan_state \<Rightarrow> scan_state option" where
  "loop content st =
     (if idx st < length content then loop content (step content st) else Some st)"

declare loop.simps [code]


text \<open>The first branch of \<open>process_file_content\<close> (lines 66 to 115).\<close>

definition minify :: "string \<Rightarrow> string option" where
  "minify content = do { st \<leftarrow> loop content init_state; Some (strip (buffer st)) }"

text \<open>
  \<open>process_file_content\<close> (lines 61 to 124). The result is the pair of the lines printed
  and the value returned. \<open>json_compact\<close> stands for
  \<open>json.dumps(json.loads(content), separators=(",", ":"))\<close>, with \<open>None\<close> for a
  \<open>JSONDecodeError\<close>; it is a parameter, since the JSON library is not part of the
  repository.
\<close>

definition process_file_content ::
  "(string \<Rightarrow> string option) \<Rightarrow> path \<Rightarrow> string \<Rightarrow> (string list \<times> string) option" where
  "process_file_content json_compact file content =
     (let file_ext = lower (path_suffix file)
      in if file_ext \<in> set [''.dart'', ''.yaml'', ''.json'']
           then do { r \<leftarrow> minify content; Some ([], r) }
         else if file_ext = ''.json''
           then (case json_compact content of
                   Some r \<Rightarrow> Some ([], r)
                 | None \<Rightarrow> Some ([''Warning: Could not parse JSON file '' @ path_str file],
                     content))
         else Some ([], content))"

section \<open>File selection\<close>

text \<open>The module constants (lines 9 to 45) and the pattern lists of \<open>main\<close> (lines 135 to 174).\<close>

definition EXCLUDED_DIRS :: "string list" where
  "EXCLUDED_DIRS = [''.git'', ''node_modules'', ''.vscode'', ''.next'', ''.pytest_cache'',
     ''build'', ''.idea'', ''.dart_tool'', ''ios'', ''android'', ''web'', ''macos'']"

definition EXCLUDED_FILES :: "string list" where
  "EXCLUDED_FILES = [''.cursorrules'', ''.cursorrules-template'', ''cursorruler.py'',
     ''.d.ts'', ''.tool-versions'', ''.lock'', ''.env'', ''.g.dart'', ''.g.yaml'', ''.g.json'',
     ''.freezed.dart'', ''.arb'', ''README.md'']"

definition include_patterns :: "string list" where
  "include_patterns = [''**/*.dart'', ''**/*.yaml'', ''**/*.ts'', ''**/*.tsx'', ''**/*.json'',
     ''**/*.js'', ''**/*.jsx'', ''**/*.md'', ''**/*.html'', ''**/*.css'', ''**/*.scss'',
     ''**/*.less'', ''**/*.styl'']"

definition exclude_patterns :: "string list" where
  "exclude_patterns = [''**/Makefile'', ''**/*.md'', ''**/*.txt'', ''.vscode/**'',
     ''**/node_modules/**'', ''**/.git/**'', ''**/.cursorrules'', ''**/.cursorrules-template'',
     ''**/*.txt'', ''**/*.env'', ''**/*.pem'', ''**/*.pub'', ''**/*.tfstate'',
     ''**/*.tfstate.backup'', ''**/*.tfplan'', ''**/*.tfplan.json'', ''build/**'',
     ''**/build/**'', ''ios'', ''android'', ''web'', ''macos'']"

text \<open>
  \<open>Path(p).resolve()\<close> in the working directory \<open>cwd\<close> (an absolute path), for a path
  without symbolic links and without \<open>.\<close> or \<open>..\<close> parts: an absolute path is kept, a
  relative one is appended to \<open>cwd\<close>.
\<close>

definition resolve :: "path \<Rightarrow> path \<Rightarrow> path" where
  "resolve cwd p = (if p \<noteq> [] \<and> hd p = ''/'' then p else cwd @ p)"

text \<open>
  The file system is seen through \<open>glob\<close>: \<open>glob pattern\<close> lists the paths that
  \<open>Path().glob(pattern)\<close> yields; the directory tree does not change between the calls.
  The set of lines 185 to 187:
\<close>

definition excluded_files :: "(string \<Rightarrow> path list) \<Rightarrow> string list \<Rightarrow> path set" where
  "excluded_files glob excl = (\<Union>pattern \<in> set excl. set (glob pattern))"

text \<open>The set \<open>matching_files\<close> after lines 190 to 198, with both \<open>discard\<close> calls.\<close>

definition matching_files ::
  "(string \<Rightarrow> path list) \<Rightarrow> string list \<Rightarrow> string list \<Rightarrow> path \<Rightarrow> path \<Rightarrow> path set" where
  "matching_files glob incl excl script_path output_path =
     Set.filter (\<lambda>file. file \<notin> excluded_files glob excl)
       (\<Union>pattern \<in> set incl. set (glob pattern)) - {script_path} - {output_path}"

text \<open>\<open>sorted(matching_files)\<close> of line 215: paths are ordered part by part.\<close>

definition selected_files ::
  "(string \<Rightarrow> path list) \<Rightarrow> string list \<Rightarrow> string list \<Rightarrow> path \<Rightarrow> path \<Rightarrow> path list" where
  "selected_files glob incl excl script_path output_path =
     sorted_list_of_set (matching_files glob incl excl script_path output_path)"

text \<open>The guard of line 216: some pattern is a substring of \<open>str(file)\<close>.\<close>

definition is_skipped :: "string list \<Rightarrow> path \<Rightarrow> bool" where
  "is_skipped substrs file = list_ex (\<lambda>pattern. sublist pattern (path_str file)) substrs"

text \<open>The files that pass the guard of line 216 and reach the body of the loop, in order.\<close>

definition aggregated_files ::
  "(string \<Rightarrow> path list) \<Rightarrow> string list \<Rightarrow> string list \<Rightarrow> string list \<Rightarrow> path \<Rightarrow> path
     \<Rightarrow> path list" where
  "aggregated_files glob incl excl substrs script_path output_path =
     filter (\<lambda>file. \<not> is_skipped substrs file)
       (selected_files glob incl excl script_path output_path)"

section \<open>Aggregation\<close>

text \<open>
  The effects of the loop of lines 215 to 227: the text written to \<open>outfile\<close>, the lines
  printed, and the counter. Reading a file gives \<open>Inr\<close> its content or \<open>Inl\<close> the message
  of the exception raised; writing to \<open>outfile\<close> is taken to succeed.
\<close>

record agg_state =
  outfile :: string
  stdout :: "string list"
  processed_count :: nat

definition header :: "path \<Rightarrow> string" where
  "header file = [CHR 0x0A] @ ''=== '' @ path_str file @ '' ==='' @ [CHR 0x0A, CHR 0x0A]"

definition process_one ::
  "(string \<Rightarrow> string option) \<Rightarrow> (path \<Rightarrow> string + string) \<Rightarrow> string list \<Rightarrow> path
     \<Rightarrow> agg_state \<Rightarrow> agg_state option" where
  "process_one json_compact read_file substrs file st =
     (if is_skipped substrs file then Some st
      else let st1 = st\<lparr>stdout := stdout st @ [''Processing: '' @ path_str file],
                        outfile := outfile st @ header file\<rparr>
           in case read_file file of
                Inl e \<Rightarrow>
                  Some (st1\<lparr>stdout := stdout st1
                     @ [''Error processing '' @ path_str file @ '': '' @ e]\<rparr>)
              | Inr content \<Rightarrow>
                  do { (printed, processed_content)
                         \<leftarrow> process_file_content json_compact file content;
                       Some (st1\<lparr>stdout := stdout st1 @ printed,
                                outfile := outfile st1 @ processed_content,
                                processed_count := processed_count st1 + 1\<rparr>) })"

fun process_files ::
  "(string \<Rightarrow> string option) \<Rightarrow> (path \<Rightarrow> string + string) \<Rightarrow> string list \<Rightarrow> path list
     \<Rightarrow> agg_state \<Rightarrow> agg_state option" where
  "process_files json_compact read_file substrs [] st = Some st"
| "process_files json_compact read_file substrs (file # files) st =
     do { st' \<leftarrow> process_one json_compact read_file substrs file st;
          process_files json_compact read_file substrs files st' }"

text \<open>The whole \<open>with\<close> block of lines 207 to 229.\<close>

definition write_combined ::
  "(string \<Rightarrow> string option) \<Rightarrow> (path \<Rightarrow> string + string) \<Rightarrow> string list \<Rightarrow> string
     \<Rightarrow> path list \<Rightarrow> agg_state option" where
  "write_combined json_compact read_file substrs tree_output files =
     do { st \<leftarrow> process_files json_compact read_file substrs files
            \<lparr>outfile = ''<project-tree>'' @ [CHR 0x0A] @ tree_output @ [CHR 0x0A]
               @ ''</project-tree>'' @ [CHR 0x0A] @ ''<codebase>'' @ [CHR 0x0A],
             stdout = [], processed_count = 0\<rparr>;
          Some (st\<lparr>outfile := outfile st @ [CHR 0x0A] @ ''</codebase>''\<rparr>) }"

section \<open>Template merge\<close>

text \<open>
  \<open>s.replace(old, new)\<close>: the occurrences of \<open>old\<close> are replaced from left to right, each
  search starting after the previous occurrence. For the empty \<open>old\<close>, Python puts \<open>new\<close>
  before every character and at the end.
\<close>

function replace_from :: "string \<Rightarrow> string \<Rightarrow> string \<Rightarrow> string" where
  "replace_from old new s =
     (if s = [] then []
      else if old \<noteq> [] \<and> prefix old s then new @ replace_from old new (drop (length old) s)
      else hd s # replace_from old new (tl s))"
  by pat_completeness auto
termination
  by (relation "measure (\<lambda>(old, new, s). length s)") auto

declare replace_from.simps [simp del]

definition str_replace :: "string \<Rightarrow> string \<Rightarrow> string \<Rightarrow> string" where
  "str_replace old new s =
     (if old = [] then new @ concat (map (\<lambda>c. c # new) s) else replace_from old new s)"

definition placeholder :: string where
  "placeholder = ''${CODEBASE}''"

text \<open>Line 255.\<close>

definition merge :: "string \<Rightarrow> string \<Rightarrow> string" where
  "merge template_content combined_content =
     str_replace placeholder combined_content template_content"

section \<open>Predicates on inputs\<close>

text \<open>A text without comment sequences: neither \<open>/*\<close> nor \<open>//\<close> occurs in it.\<close>

definition no_comments :: "string \<Rightarrow> bool" where
  "no_comments content = (\<not> sublist ''/*'' content \<and> \<not> sublist ''//'' content)"

text \<open>
  A text with balanced quotes: read from the left, a quote character that does not follow
  a backslash opens a string when none is open and closes the open string when it is the
  same character; at the end no string is open.
\<close>

fun quotes_balanced_from :: "char option \<Rightarrow> char option \<Rightarrow> string \<Rightarrow> bool" where
  "quotes_balanced_from opened prev [] = (opened = None)"
| "quotes_balanced_from opened prev (c # cs) =
     (if is_quote c \<and> prev \<noteq> Some (CHR 0x5C)
        then (case opened of
                None \<Rightarrow> quotes_balanced_from (Some c) (Some c) cs
              | Some d \<Rightarrow> if c = d then quotes_balanced_from None (Some c) cs
                         else quotes_balanced_from opened (Some c) cs)
      else quotes_balanced_from opened (Some c) cs)"

definition balanced_quotes :: "string \<Rightarrow> bool" where
  "balanced_quotes content = quotes_balanced_from None None content"

section \<open>The scanner on text without comments\<close>

text \<open>
  The part of the loop body after the comment branches (lines 94 to 113), for one
  character: the state is \<open>in_string\<close>, \<open>string_char\<close>, the previous character of the
  input and the buffer. On a text without comment sequences the loop is the fold of this
  step (lemma \<open>loop_plain\<close>).
\<close>

type_synonym plain_state = "bool \<times> char option \<times> char option \<times> string"

definition plain_step :: "plain_state \<Rightarrow> char \<Rightarrow> plain_state" where
  "plain_step s c = (case s of (ins, sc, prev, buf) \<Rightarrow>
     if is_quote c \<and> prev \<noteq> Some (CHR 0x5C)
       then (if \<not> ins then (True, Some c, Some c, buf @ [c])
             else if Some c = sc then (False, sc, Some c, buf @ [c])
             else (ins, sc, Some c, buf @ [c]))
     else if isspace c \<and> \<not> ins
       then (if buf \<noteq> [] \<and> \<not> isspace (last buf) then (ins, sc, Some c, buf @ '' '')
             else (ins, sc, Some c, buf))
     else (ins, sc, Some c, buf @ [c]))"

definition plain_scan :: "string \<Rightarrow> plain_state" where
  "plain_scan s = foldl plain_step (False, None, None, []) s"

definition plain_buffer :: "plain_state \<Rightarrow> string" where
  "plain_buffer s = snd (snd (snd s))"

text \<open>\<open>content[i - 1]\<close> when \<open>i\<close> is not 0.\<close>

definition prev_at :: "string \<Rightarrow> nat \<Rightarrow> char option" where
  "prev_at content k = (if k = 0 then None else Some (content ! (k - 1)))"

definition last_option :: "string \<Rightarrow> char option" where
  "last_option s = (if s = [] then None else Some (last s))"

text \<open>
  How the previous input character and the buffer are related during a scan: the
  character was appended, or it was whitespace outside a string and the buffer is empty
  or ends in whitespace.
\<close>

definition linked :: "bool \<Rightarrow> char option \<Rightarrow> string \<Rightarrow> bool" where
  "linked ins prev buf = (case prev of
       None \<Rightarrow> buf = []
     | Some w \<Rightarrow> (buf \<noteq> [] \<and> w = last buf)
         \<or> (isspace w \<and> \<not> ins \<and> (buf = [] \<or> isspace (last buf))))"

text \<open>A scanner state whose buffer is scanned to the same state and the same buffer.\<close>

definition settled :: "plain_state \<Rightarrow> bool" where
  "settled s = (case s of (ins, sc, prev, buf) \<Rightarrow>
     plain_scan buf = (ins, sc, last_option buf, buf) \<and> linked ins prev buf
     \<and> (if buf = [] then \<not> ins else \<not> isspace (hd buf)))"

section \<open>Example inputs\<close>

text \<open>
  A working directory \<open>/proj\<close> that holds \<open>out.json\<close>, \<open>web/c.json\<close>,
  \<open>docs/notes.md\<close> and \<open>lib/main.dart\<close>, as \<open>Path().glob\<close> lists it: the paths are
  relative to the working directory.
\<close>

definition example_glob :: "string \<Rightarrow> path list" where
  "example_glob pattern =
     (if pattern = ''**/*.json'' then [[''out.json''], [''web'', ''c.json'']]
      else if pattern = ''**/*.md'' then [[''docs'', ''notes.md'']]
      else if pattern = ''**/*.dart'' then [[''lib'', ''main.dart'']]
      else [])"

text \<open>A file system where \<open>a.json\<close> and \<open>c.dart\<close> can be read and nothing else.\<close>

definition example_read :: "path \<Rightarrow> string + string" where
  "example_read file =
     (if file = [''a.json''] then Inr ''{\"a\": 1}''
      else if file = [''c.dart''] then Inr ''int x;''
      else Inl ''[Errno 13] Permission denied'')"


section \<open>Termination of the scanner\<close>

lemma skip_line_ge: "k \<le> skip_line content k"
proof (induction content k rule: skip_line.induct)
  case (1 content k)
  show ?case
  proof (cases "k < length content \<and> content ! k \<noteq> CHR 0x0A")
    case True
    then have "skip_line content k = skip_line content (k + 1)"
      by (subst skip_line.simps) simp
    moreover from True "1.IH" have "k + 1 \<le> skip_line content (k + 1)" by blast
    ultimately show ?thesis by simp
  next
    case False
    then have "skip_line content k = k"
      by (subst skip_line.simps) auto
    then show ?thesis by simp
  qed
qed

lemma skip_line_comment:
  assumes "take 2 (drop k content) = ''//''"
  shows "k < skip_line content k"
proof -
  from assms have len: "k < length content"
    by (cases "k < length content") auto
  from assms have "hd (take 2 (drop k content)) = CHR ''/''" by simp
  with len have "content ! k = CHR ''/''"
    by (simp add: hd_drop_conv_nth)
  with len have "skip_line content k = skip_line content (k + 1)"
    by (subst skip_line.simps) simp
  moreover have "k + 1 \<le> skip_line content (k + 1)" by (rule skip_line_ge)
  ultimately show ?thesis by simp
qed

lemma step_increases: "idx st < idx (step content st)"
  using skip_line_comment [of "idx st" content]
  by (simp add: step_def Let_def)

lemma loop_terminates: "\<exists>st'. loop content st = Some st'"
proof (induction "length content - idx st" arbitrary: st rule: less_induct)
  case less
  show ?case
  proof (cases "idx st < length content")
    case True
    have "idx st < idx (step content st)" by (rule step_increases)
    with True have "length content - idx (step content st) < length content - idx st"
      by arith
    then have "\<exists>st'. loop content (step content st) = Some st'" by (rule less)
    with True show ?thesis by (subst loop.simps) simp
  next
    case False
    then show ?thesis by (subst loop.simps) simp
  qed
qed

lemma minify_terminates: "\<exists>r. minify content = Some r"
  using loop_terminates [of content init_state] by (auto simp: minify_def)

text \<open>
  Claim C10. Every iteration of the scanning loop moves the index strictly forward, and
  \<open>process_file_content\<close> returns a result for every file name and every content.
\<close>

theorem process_file_content_terminates:
  "(\<forall>st. idx st < length content \<longrightarrow> idx st < idx (step content st)) \<and>
   (\<exists>r. process_file_content json_compact file content = Some r)"
proof
  show "\<forall>st. idx st < length content \<longrightarrow> idx st < idx (step content st)"
    by (simp add: step_increases)
next
  obtain r where "minify content = Some r" using minify_terminates by blast
  then show "\<exists>r. process_file_content json_compact file content = Some r"
    by (cases "json_compact content") (simp_all add: process_file_content_def Let_def)
qed

theorem process_file_content_terminates_witness:
  "idx init_state < length ''a // b'' \<and> idx init_state < idx (step ''a // b'' init_state) \<and>
   (\<exists>r. process_file_content (\<lambda>_. None) [''x.dart''] ''a // b'' = Some r)"
proof -
  have h: "idx init_state < length ''a // b''" by (simp add: init_state_def)
  note t = process_file_content_terminates [of "''a // b''" "\<lambda>_. None" "[''x.dart'']"]
  from t h have "idx init_state < idx (step ''a // b'' init_state)" by blast
  with t h show ?thesis by blast
qed

section \<open>The JSON branch\<close>

text \<open>
  Claim C1. For \<open>a.json\<close> with the content \<open>{"a": 1}\<close> the value returned is the
  scanner's output \<open>{"a": 1}\<close>, whatever the JSON library computes: the suffix
  \<open>.json\<close> is taken by the first branch, so the compact form \<open>{"a":1}\<close> is never
  produced.
\<close>

theorem json_branch_unreachable:
  "\<forall>json_compact. process_file_content json_compact [''a.json''] ''{\"a\": 1}''
       = Some ([], ''{\"a\": 1}'') \<and>
     process_file_content json_compact [''a.json''] ''{\"a\": 1}''
       \<noteq> Some ([], ''{\"a\":1}'')"
proof -
  have s: "lower (path_suffix [''a.json'']) = ''.json''" by code_simp
  have m: "minify ''{\"a\": 1}'' = Some ''{\"a\": 1}''" by code_simp
  show ?thesis by (simp add: process_file_content_def s m)
qed

section \<open>Selection\<close>

lemma finite_matching_files:
  "finite (matching_files glob incl excl script_path output_path)"
  by (simp add: matching_files_def)

lemma set_selected_files:
  "set (selected_files glob incl excl script_path output_path)
     = matching_files glob incl excl script_path output_path"
  by (simp add: selected_files_def finite_matching_files)

lemma matching_files_not_excluded:
  "file \<in> matching_files glob incl excl script_path output_path
     \<Longrightarrow> file \<notin> excluded_files glob excl"
  by (simp add: matching_files_def)

lemma process_files_filter:
  "process_files jc rd subs (filter (\<lambda>file. \<not> is_skipped subs file) files) st
     = process_files jc rd subs files st"
proof (induction files arbitrary: st)
  case Nil
  show ?case by simp
next
  case (Cons f fs)
  show ?case
  proof (cases "is_skipped subs f")
    case True
    then have "process_one jc rd subs f st = Some st" by (simp add: process_one_def)
    with True Cons show ?thesis by simp
  next
    case False
    have "process_files jc rd subs (filter (\<lambda>file. \<not> is_skipped subs file) fs)
        = process_files jc rd subs fs"
      by (rule ext) (rule Cons)
    with False show ?thesis by simp
  qed
qed

text \<open>
  Claim C3. A file that reaches the body of the aggregation loop is listed by no exclude
  pattern, and no exclusion substring occurs in its string form, whatever the include
  patterns list.
\<close>

theorem exclusion_wins:
  assumes "file \<in> set (aggregated_files glob incl excl substrs script_path output_path)"
  shows "(\<forall>pattern \<in> set excl. file \<notin> set (glob pattern)) \<and>
         (\<forall>pattern \<in> set substrs. \<not> sublist pattern (path_str file))"
proof
  from assms have "file \<in> matching_files glob incl excl script_path output_path"
    by (simp add: aggregated_files_def set_selected_files)
  then have "file \<notin> excluded_files glob excl" by (rule matching_files_not_excluded)
  then show "\<forall>pattern \<in> set excl. file \<notin> set (glob pattern)"
    by (simp add: excluded_files_def)
next
  from assms have "\<not> is_skipped substrs file"
    by (simp add: aggregated_files_def)
  then show "\<forall>pattern \<in> set substrs. \<not> sublist pattern (path_str file)"
    by (simp add: is_skipped_def list_ex_iff)
qed

lemma example_aggregated:
  "aggregated_files example_glob include_patterns exclude_patterns
       (EXCLUDED_DIRS @ EXCLUDED_FILES)
       (resolve [''/'', ''proj''] [''cursorruler.py''])
       (resolve [''/'', ''proj''] [''out.json''])
     = [[''lib'', ''main.dart''], [''out.json'']]"
  by code_simp

theorem exclusion_wins_witness:
  "[''lib'', ''main.dart''] \<in> set (aggregated_files example_glob include_patterns
       exclude_patterns (EXCLUDED_DIRS @ EXCLUDED_FILES)
       (resolve [''/'', ''proj''] [''cursorruler.py''])
       (resolve [''/'', ''proj''] [''out.json''])) \<and>
   [''lib'', ''main.dart''] \<notin> set (example_glob ''**/*.md'') \<and>
   \<not> sublist ''web'' (path_str [''lib'', ''main.dart''])"
proof -
  have h: "[''lib'', ''main.dart''] \<in> set (aggregated_files example_glob include_patterns
       exclude_patterns (EXCLUDED_DIRS @ EXCLUDED_FILES)
       (resolve [''/'', ''proj''] [''cursorruler.py''])
       (resolve [''/'', ''proj''] [''out.json'']))"
    by (simp add: example_aggregated)
  have p: "''**/*.md'' \<in> set exclude_patterns" by (simp add: exclude_patterns_def)
  have q: "''web'' \<in> set (EXCLUDED_DIRS @ EXCLUDED_FILES)" by (simp add: EXCLUDED_DIRS_def)
  from exclusion_wins [OF h] h p q show ?thesis by blast
qed

text \<open>
  Claim C4. The run is started in \<open>/proj\<close> with the output file name \<open>out.json\<close>, and
  \<open>out.json\<close> exists there. The resolved output path is absolute, the paths of the
  selection are relative, so \<open>discard\<close> removes nothing and \<open>out.json\<close> is aggregated.
\<close>

theorem output_file_not_removed:
  "resolve [''/'', ''proj''] [''out.json''] = [''/'', ''proj'', ''out.json''] \<and>
   [''out.json''] \<in> set (aggregated_files example_glob include_patterns exclude_patterns
       (EXCLUDED_DIRS @ EXCLUDED_FILES)
       (resolve [''/'', ''proj''] [''cursorruler.py''])
       (resolve [''/'', ''proj''] [''out.json'']))"
  by (simp add: example_aggregated) (simp add: resolve_def)

section \<open>Replacing the placeholder\<close>

lemma placeholder_dollar_only_first:
  assumes "n < length placeholder" "placeholder ! n = placeholder ! 0"
  shows "n = 0"
proof -
  have "\<forall>k \<in> set [0..<length placeholder]. placeholder ! k = placeholder ! 0 \<longrightarrow> k = 0"
    by code_simp
  with assms show ?thesis by simp
qed

lemma placeholder_no_overlap:
  assumes "\<not> sublist placeholder a" "a \<noteq> []"
  shows "\<not> prefix placeholder (a @ placeholder @ rest)"
proof
  assume p: "prefix placeholder (a @ placeholder @ rest)"
  show False
  proof (cases "length placeholder \<le> length a")
    case True
    with p have "prefix placeholder a"
      by (metis prefix_length_prefix prefixI)
    then have "sublist placeholder a" by (rule prefix_imp_sublist)
    with assms show False by simp
  next
    case False
    then have n: "length a < length placeholder" by simp
    from p obtain zs where eq: "a @ placeholder @ rest = placeholder @ zs"
      by (auto simp: prefix_def)
    have "(a @ placeholder @ rest) ! length a = placeholder ! 0"
      by (simp add: nth_append placeholder_def)
    moreover from n have "(placeholder @ zs) ! length a = placeholder ! length a"
      by (simp add: nth_append)
    ultimately have "placeholder ! length a = placeholder ! 0" using eq by simp
    with n have "length a = 0" by (rule placeholder_dollar_only_first)
    with assms show False by simp
  qed
qed

lemma replace_from_segment:
  assumes "\<not> sublist placeholder a"
  shows "replace_from placeholder new (a @ placeholder @ rest)
           = a @ new @ replace_from placeholder new rest"
  using assms
proof (induction a)
  case Nil
  have "placeholder @ rest \<noteq> []" by (simp add: placeholder_def)
  then show ?case by (subst replace_from.simps) (simp add: placeholder_def)
next
  case (Cons c cs)
  from Cons.prems have "\<not> sublist placeholder cs"
    by (meson sublist_Cons_right)
  then have ih: "replace_from placeholder new (cs @ placeholder @ rest)
           = cs @ new @ replace_from placeholder new rest" by (rule Cons.IH)
  have "\<not> prefix placeholder ((c # cs) @ placeholder @ rest)"
    using Cons.prems by (rule placeholder_no_overlap) simp
  then have "replace_from placeholder new ((c # cs) @ placeholder @ rest)
      = c # replace_from placeholder new (cs @ placeholder @ rest)"
    by (subst replace_from.simps) simp
  with ih show ?case by simp
qed

lemma replace_from_no_occurrence:
  assumes "\<not> sublist placeholder a"
  shows "replace_from placeholder new a = a"
  using assms
proof (induction a)
  case Nil
  show ?case by (subst replace_from.simps) simp
next
  case (Cons c cs)
  from Cons.prems have "\<not> sublist placeholder cs"
    by (meson sublist_Cons_right)
  then have ih: "replace_from placeholder new cs = cs" by (rule Cons.IH)
  from Cons.prems have "\<not> prefix placeholder (c # cs)"
    using prefix_imp_sublist by blast
  then have "replace_from placeholder new (c # cs) = c # replace_from placeholder new cs"
    by (subst replace_from.simps) simp
  with ih show ?case by simp
qed

lemma replace_from_join:
  assumes "\<forall>seg \<in> set segs. \<not> sublist placeholder seg"
  shows "replace_from placeholder new (join_with placeholder segs) = join_with new segs"
  using assms
proof (induction segs rule: induct_list012)
  case 1
  show ?case by (subst replace_from.simps) simp
next
  case (2 p)
  then show ?case by (simp add: replace_from_no_occurrence)
next
  case (3 p q ps)
  then show ?case by (simp add: replace_from_segment)
qed

lemma template_segments:
  "\<exists>segs. template = join_with placeholder segs \<and> segs \<noteq> [] \<and>
     (\<forall>seg \<in> set segs. \<not> sublist placeholder seg)"
proof (induction template)
  case Nil
  have "[] = join_with placeholder [[]] \<and> [[]] \<noteq> [] \<and>
     (\<forall>seg \<in> set [[]]. \<not> sublist placeholder seg)"
    by (simp add: placeholder_def)
  then show ?case by blast
next
  case (Cons c t)
  then obtain s0 rest where t: "t = join_with placeholder (s0 # rest)"
    and free: "\<not> sublist placeholder s0" "\<forall>seg \<in> set rest. \<not> sublist placeholder seg"
    by (metis list.exhaust list.set_intros(1) list.set_intros(2))
  have j: "\<And>x. join_with placeholder (x # rest) = x @ join_with placeholder ([] # rest)"
    by (cases rest) simp_all
  show ?case
  proof (cases "prefix placeholder (c # s0)")
    case False
    with free(1) have "\<not> sublist placeholder (c # s0)"
      by (simp add: sublist_Cons_right)
    moreover have "c # t = join_with placeholder ((c # s0) # rest)"
      using t j [of s0] j [of "c # s0"] by simp
    ultimately have "c # t = join_with placeholder ((c # s0) # rest) \<and> (c # s0) # rest \<noteq> [] \<and>
        (\<forall>seg \<in> set ((c # s0) # rest). \<not> sublist placeholder seg)"
      using free(2) by simp
    then show ?thesis by blast
  next
    case True
    then obtain s1 where s1: "c # s0 = placeholder @ s1" by (auto simp: prefix_def)
    have "placeholder \<noteq> []" by (simp add: placeholder_def)
    then obtain a ph' where "placeholder = a # ph'" by (cases placeholder) auto
    with s1 have "s0 = ph' @ s1" by (metis append_Cons list.inject)
    then have "Sublist.suffix s1 s0" by (simp add: suffix_def)
    then have "sublist s1 s0" by (rule suffix_imp_sublist)
    with free(1) have f1: "\<not> sublist placeholder s1"
      using sublist_order.order.trans by blast
    have "c # t = (c # s0) @ join_with placeholder ([] # rest)"
      using t j [of s0] by simp
    also have "\<dots> = placeholder @ s1 @ join_with placeholder ([] # rest)"
      by (simp add: s1)
    also have "\<dots> = join_with placeholder ([] # s1 # rest)"
      using j [of s1] by simp
    finally have "c # t = join_with placeholder ([] # s1 # rest)" .
    moreover have "\<forall>seg \<in> set ([] # s1 # rest). \<not> sublist placeholder seg"
      using f1 free(2) \<open>placeholder \<noteq> []\<close> by simp
    ultimately show ?thesis by blast
  qed
qed

text \<open>
  Claim C7. Every template is a list of segments joined by the placeholder, none of which
  holds the placeholder (lemma \<open>template_segments\<close>); the merge is then the same
  segments joined by the payload: every occurrence is replaced, however many there are.
\<close>

theorem merge_replaces_every_occurrence:
  assumes "\<forall>seg \<in> set segs. \<not> sublist placeholder seg"
  shows "merge (join_with placeholder segs) payload = join_with payload segs"
proof -
  have "placeholder \<noteq> []" by (simp add: placeholder_def)
  with assms show ?thesis by (simp add: merge_def str_replace_def replace_from_join)
qed

theorem merge_replaces_every_occurrence_witness:
  "\<not> sublist placeholder ''Header '' \<and> \<not> sublist placeholder '' and '' \<and>
   \<not> sublist placeholder '' Footer'' \<and>
   merge ''Header ${CODEBASE} and ${CODEBASE} Footer'' ''X'' = ''Header X and X Footer''"
proof -
  have h: "\<forall>seg \<in> set [''Header '', '' and '', '' Footer'']. \<not> sublist placeholder seg"
    by code_simp
  have j: "join_with placeholder [''Header '', '' and '', '' Footer'']
      = ''Header ${CODEBASE} and ${CODEBASE} Footer''"
    by (simp add: placeholder_def)
  have k: "join_with ''X'' [''Header '', '' and '', '' Footer''] = ''Header X and X Footer''"
    by simp
  have "merge (join_with placeholder [''Header '', '' and '', '' Footer'']) ''X''
      = join_with ''X'' [''Header '', '' and '', '' Footer'']"
    using h by (rule merge_replaces_every_occurrence)
  then have "merge ''Header ${CODEBASE} and ${CODEBASE} Footer'' ''X'' = ''Header X and X Footer''"
    by (simp only: j k)
  with h show ?thesis by simp
qed

section \<open>Reading failures during aggregation\<close>

lemma process_file_content_total:
  "\<exists>printed r. process_file_content json_compact file content = Some (printed, r)"
proof -
  obtain r where "minify content = Some r" using minify_terminates by blast
  then show ?thesis
    by (cases "json_compact content") (simp_all add: process_file_content_def Let_def)
qed


lemma process_one_total: "\<exists>st'. process_one jc rd subs file st = Some st'"
proof (cases "rd file")
  case (Inl e)
  then show ?thesis by (simp add: process_one_def Let_def)
next
  case (Inr content)
  obtain printed r where "process_file_content jc file content = Some (printed, r)"
    using process_file_content_total by blast
  with Inr show ?thesis by (simp add: process_one_def Let_def)
qed

lemma process_one_failed_read:
  assumes "rd file = Inl e" "\<not> is_skipped subs file"
  shows "process_one jc rd subs file st = Some (st\<lparr>
     stdout := stdout st @ [''Processing: '' @ path_str file,
       ''Error processing '' @ path_str file @ '': '' @ e],
     outfile := outfile st @ header file\<rparr>)"
  using assms by (simp add: process_one_def Let_def)

lemma process_one_grows:
  assumes "process_one jc rd subs file st = Some st'"
  shows "prefix (stdout st) (stdout st') \<and> prefix (outfile st) (outfile st')"
proof (cases "is_skipped subs file")
  case True
  with assms show ?thesis by (simp add: process_one_def)
next
  case False
  show ?thesis
  proof (cases "rd file")
    case (Inl e)
    with assms False show ?thesis by (auto simp: process_one_def Let_def)
  next
    case (Inr content)
    with assms False show ?thesis
      by (auto simp: process_one_def Let_def split: bind_splits)
  qed
qed


lemma process_files_total: "\<exists>st'. process_files jc rd subs files st = Some st'"
proof (induction files arbitrary: st)
  case Nil
  show ?case by simp
next
  case (Cons f fs)
  obtain st1 where "process_one jc rd subs f st = Some st1"
    using process_one_total by blast
  with Cons [of st1] show ?case by simp
qed

lemma process_files_append:
  "process_files jc rd subs (xs @ ys) st
     = process_files jc rd subs xs st \<bind> process_files jc rd subs ys"
proof (induction xs arbitrary: st)
  case Nil
  show ?case by simp
next
  case (Cons f fs)
  show ?case
  proof (cases "process_one jc rd subs f st")
    case None
    then show ?thesis by simp
  next
    case (Some st1)
    with Cons [of st1] show ?thesis by simp
  qed
qed

lemma process_files_grows:
  assumes "process_files jc rd subs files st = Some st'"
  shows "prefix (stdout st) (stdout st') \<and> prefix (outfile st) (outfile st')"
  using assms
proof (induction files arbitrary: st)
  case Nil
  then show ?case by simp
next
  case (Cons f fs)
  from Cons.prems obtain st1 where
    one: "process_one jc rd subs f st = Some st1" and
    rest: "process_files jc rd subs fs st1 = Some st'"
    by (auto split: bind_splits)
  from one have "prefix (stdout st) (stdout st1) \<and> prefix (outfile st) (outfile st1)"
    by (rule process_one_grows)
  moreover from rest have "prefix (stdout st1) (stdout st') \<and> prefix (outfile st1) (outfile st')"
    by (rule Cons.IH)
  ultimately show ?case by (meson prefix_order.trans)
qed




text \<open>
  Claim C9. When reading the file \<open>failed\<close> fails, the output after that file is the
  output before it followed by a line feed, the line \<open>=== <path> ===\<close> and two line
  feeds, and nothing else: the header is there and the body is empty. The counter is
  unchanged, and the header line stays in the output of the whole run.
\<close>

theorem failed_read_leaves_header:
  assumes "read_file failed = Inl e" "\<not> is_skipped substrs failed"
  shows "\<exists>st1 st2 st3.
     process_files json_compact read_file substrs pre st = Some st1 \<and>
     process_files json_compact read_file substrs (pre @ [failed]) st = Some st2 \<and>
     outfile st2 = outfile st1 @ [CHR 0x0A] @ ''=== '' @ path_str failed @ '' ===''
       @ [CHR 0x0A, CHR 0x0A] \<and>
     processed_count st2 = processed_count st1 \<and>
     process_files json_compact read_file substrs (pre @ failed # post) st = Some st3 \<and>
     prefix (outfile st1 @ [CHR 0x0A] @ ''=== '' @ path_str failed @ '' ===''
       @ [CHR 0x0A, CHR 0x0A]) (outfile st3) \<and>
     sublist (''=== '' @ path_str failed @ '' ==='') (outfile st3)"
proof -
  let ?line = "''=== '' @ path_str failed @ '' ===''"
  have hd: "header failed = [CHR 0x0A] @ ?line @ [CHR 0x0A, CHR 0x0A]"
    by (simp add: header_def)
  obtain st1 where pre: "process_files json_compact read_file substrs pre st = Some st1"
    using process_files_total by blast
  let ?mid = "st1\<lparr>stdout := stdout st1 @ [''Processing: '' @ path_str failed,
                 ''Error processing '' @ path_str failed @ '': '' @ e],
             outfile := outfile st1 @ header failed\<rparr>"
  have one: "process_one json_compact read_file substrs failed st1 = Some ?mid"
    using assms by (rule process_one_failed_read)
  have upto: "process_files json_compact read_file substrs (pre @ [failed]) st = Some ?mid"
    using pre one by (simp add: process_files_append)
  have out2: "outfile ?mid = outfile st1 @ [CHR 0x0A] @ ?line @ [CHR 0x0A, CHR 0x0A]"
    by (simp add: hd)
  have cnt: "processed_count ?mid = processed_count st1" by simp
  obtain st3 where post: "process_files json_compact read_file substrs post ?mid = Some st3"
    using process_files_total by blast
  have whole: "process_files json_compact read_file substrs (pre @ failed # post) st = Some st3"
    using pre one post by (simp add: process_files_append)
  from post have "prefix (outfile ?mid) (outfile st3)"
    using process_files_grows by blast
  with out2 have pf: "prefix (outfile st1 @ [CHR 0x0A] @ ?line @ [CHR 0x0A, CHR 0x0A])
      (outfile st3)"
    by simp
  then obtain rest where
    "outfile st3 = (outfile st1 @ [CHR 0x0A] @ ?line @ [CHR 0x0A, CHR 0x0A]) @ rest"
    by (auto simp: prefix_def)
  then have "outfile st3 = (outfile st1 @ [CHR 0x0A]) @ ?line @ ([CHR 0x0A, CHR 0x0A] @ rest)"
    by simp
  then have sl: "sublist ?line (outfile st3)"
    by (metis sublist_appendI)
  from pre upto out2 cnt whole pf sl
  have "process_files json_compact read_file substrs pre st = Some st1 \<and>
     process_files json_compact read_file substrs (pre @ [failed]) st = Some ?mid \<and>
     outfile ?mid = outfile st1 @ [CHR 0x0A] @ ''=== '' @ path_str failed @ '' ===''
       @ [CHR 0x0A, CHR 0x0A] \<and>
     processed_count ?mid = processed_count st1 \<and>
     process_files json_compact read_file substrs (pre @ failed # post) st = Some st3 \<and>
     prefix (outfile st1 @ [CHR 0x0A] @ ''=== '' @ path_str failed @ '' ===''
       @ [CHR 0x0A, CHR 0x0A]) (outfile st3) \<and>
     sublist (''=== '' @ path_str failed @ '' ==='') (outfile st3)"
    by simp
  then show ?thesis by blast
qed

lemma example_before_failure:
  "process_files (\<lambda>_. None) example_read (EXCLUDED_DIRS @ EXCLUDED_FILES) [[''a.json'']]
       \<lparr>outfile = [], stdout = [], processed_count = 0\<rparr>
     = Some \<lparr>outfile = [CHR 0x0A] @ ''=== a.json ==='' @ [CHR 0x0A, CHR 0x0A] @ ''{\"a\": 1}'',
         stdout = [''Processing: a.json''], processed_count = 1\<rparr>"
  by code_simp

theorem failed_read_leaves_header_witness:
  "example_read [''b.json''] = Inl ''[Errno 13] Permission denied'' \<and>
   \<not> is_skipped (EXCLUDED_DIRS @ EXCLUDED_FILES) [''b.json''] \<and>
   (\<exists>st2 st3.
     process_files (\<lambda>_. None) example_read (EXCLUDED_DIRS @ EXCLUDED_FILES)
       ([[''a.json'']] @ [[''b.json'']])
       \<lparr>outfile = [], stdout = [], processed_count = 0\<rparr> = Some st2 \<and>
     outfile st2 = [CHR 0x0A] @ ''=== a.json ==='' @ [CHR 0x0A, CHR 0x0A] @ ''{\"a\": 1}''
       @ [CHR 0x0A] @ ''=== b.json ==='' @ [CHR 0x0A, CHR 0x0A] \<and>
     processed_count st2 = 1 \<and>
     process_files (\<lambda>_. None) example_read (EXCLUDED_DIRS @ EXCLUDED_FILES)
       ([[''a.json'']] @ [''b.json''] # [[''c.dart'']])
       \<lparr>outfile = [], stdout = [], processed_count = 0\<rparr> = Some st3 \<and>
     sublist ''=== b.json ==='' (outfile st3))"
proof -
  have h1: "example_read [''b.json''] = Inl ''[Errno 13] Permission denied''"
    by (simp add: example_read_def)
  have h2: "\<not> is_skipped (EXCLUDED_DIRS @ EXCLUDED_FILES) [''b.json'']"
    by code_simp
  have p: "path_str [''b.json''] = ''b.json''" by (simp add: path_str_def)
  from failed_read_leaves_header [where read_file = example_read
      and failed = "[''b.json'']" and substrs = "EXCLUDED_DIRS @ EXCLUDED_FILES"
      and json_compact = "\<lambda>_. None" and pre = "[[''a.json'']]" and post = "[[''c.dart'']]"
      and st = "\<lparr>outfile = [], stdout = [], processed_count = 0\<rparr>", OF h1 h2]
  obtain st1 st2 st3 where
    a: "process_files (\<lambda>_. None) example_read (EXCLUDED_DIRS @ EXCLUDED_FILES) [[''a.json'']]
       \<lparr>outfile = [], stdout = [], processed_count = 0\<rparr> = Some st1"
    and b: "process_files (\<lambda>_. None) example_read (EXCLUDED_DIRS @ EXCLUDED_FILES)
       ([[''a.json'']] @ [[''b.json'']])
       \<lparr>outfile = [], stdout = [], processed_count = 0\<rparr> = Some st2"
    and c: "outfile st2 = outfile st1 @ [CHR 0x0A] @ ''=== '' @ path_str [''b.json'']
       @ '' ==='' @ [CHR 0x0A, CHR 0x0A]"
    and d: "processed_count st2 = processed_count st1"
    and f: "process_files (\<lambda>_. None) example_read (EXCLUDED_DIRS @ EXCLUDED_FILES)
       ([[''a.json'']] @ [''b.json''] # [[''c.dart'']])
       \<lparr>outfile = [], stdout = [], processed_count = 0\<rparr> = Some st3"
    and g: "sublist (''=== '' @ path_str [''b.json''] @ '' ==='') (outfile st3)"
    by blast
  from a have st1: "st1 = \<lparr>outfile = [CHR 0x0A] @ ''=== a.json ==='' @ [CHR 0x0A, CHR 0x0A]
       @ ''{\"a\": 1}'', stdout = [''Processing: a.json''], processed_count = 1\<rparr>"
    by (simp only: example_before_failure option.inject)
  have c': "outfile st2 = [CHR 0x0A] @ ''=== a.json ==='' @ [CHR 0x0A, CHR 0x0A] @ ''{\"a\": 1}''
       @ [CHR 0x0A] @ ''=== b.json ==='' @ [CHR 0x0A, CHR 0x0A]"
    using c by (simp add: st1 p)
  have d': "processed_count st2 = 1" using d by (simp add: st1)
  have g': "sublist ''=== b.json ==='' (outfile st3)" using g by (simp add: p)
  from h1 h2 b c' d' f g' show ?thesis by blast
qed

section \<open>Strings and comments in the scanner\<close>









section \<open>Block comments\<close>










section \<open>Idempotence on text without comments\<close>

lemma no_comments_at:
  assumes "no_comments content"
  shows "take 2 (drop k content) \<noteq> ''/*'' \<and> take 2 (drop k content) \<noteq> ''//''"
proof -
  have "sublist (take 2 (drop k content)) content"
    by (meson sublist_drop sublist_order.order.trans sublist_take)
  with assms show ?thesis by (auto simp: no_comments_def)
qed

lemma step_plain:
  assumes "\<not> in_multiline_comment st"
    "take 2 (drop (idx st) content) \<noteq> ''/*''" "take 2 (drop (idx st) content) \<noteq> ''//''"
    "plain_step (in_string st, string_char st, prev_at content (idx st), buffer st)
       (content ! idx st) = (ins, sc, p, buf)"
  shows "step content st = st\<lparr>in_string := ins, string_char := sc, buffer := buf,
     idx := idx st + 1\<rparr> \<and> p = Some (content ! idx st)"
  using assms
  by (auto simp: step_def plain_step_def prev_at_def Let_def split: if_splits)

lemma loop_plain:
  assumes "no_comments content" "\<not> in_multiline_comment st" "idx st \<le> length content"
  shows "\<exists>st'. loop content st = Some st' \<and>
     buffer st' = plain_buffer (foldl plain_step
       (in_string st, string_char st, prev_at content (idx st), buffer st)
       (drop (idx st) content))"
  using assms(2,3)
proof (induction "length content - idx st" arbitrary: st rule: less_induct)
  case less
  let ?k = "idx st"
  show ?case
  proof (cases "?k < length content")
    case False
    with less.prems have "drop ?k content = []" by simp
    moreover from False have "loop content st = Some st" by (subst loop.simps) simp
    ultimately show ?thesis by (simp add: plain_buffer_def)
  next
    case True
    obtain ins sc p buf where ps:
      "plain_step (in_string st, string_char st, prev_at content ?k, buffer st) (content ! ?k)
         = (ins, sc, p, buf)"
      by (cases "plain_step (in_string st, string_char st, prev_at content ?k, buffer st)
         (content ! ?k)") auto
    let ?st1 = "st\<lparr>in_string := ins, string_char := sc, buffer := buf, idx := ?k + 1\<rparr>"
    from no_comments_at [OF assms(1), of ?k] less.prems(1) ps
    have s1: "step content st = ?st1" and p: "p = Some (content ! ?k)"
      using step_plain by blast+
    have "length content - idx ?st1 < length content - ?k" using True by simp
    moreover have "\<not> in_multiline_comment ?st1" using less.prems(1) by simp
    moreover have "idx ?st1 \<le> length content" using True by simp
    ultimately obtain st' where l: "loop content ?st1 = Some st'"
      and b: "buffer st' = plain_buffer (foldl plain_step
         (in_string ?st1, string_char ?st1, prev_at content (idx ?st1), buffer ?st1)
         (drop (idx ?st1) content))"
      using less.hyps by blast
    have pa: "prev_at content (?k + 1) = Some (content ! ?k)" by (simp add: prev_at_def)
    have d: "drop ?k content = content ! ?k # drop (?k + 1) content"
      using True by (simp add: Cons_nth_drop_Suc)
    have "loop content st = loop content ?st1"
      using True s1 by (subst loop.simps) simp
    with l have "loop content st = Some st'" by simp
    moreover have "buffer st' = plain_buffer (foldl plain_step
       (in_string st, string_char st, prev_at content ?k, buffer st) (drop ?k content))"
      using b ps p pa by (simp add: d)
    ultimately show ?thesis by blast
  qed
qed

lemma minify_plain:
  assumes "no_comments content"
  shows "minify content = Some (strip (plain_buffer (plain_scan content)))"
proof -
  have "\<not> in_multiline_comment init_state" "idx init_state \<le> length content"
    by (simp_all add: init_state_def)
  with assms obtain st' where "loop content init_state = Some st'"
    and "buffer st' = plain_buffer (foldl plain_step
       (in_string init_state, string_char init_state, prev_at content (idx init_state),
        buffer init_state) (drop (idx init_state) content))"
    using loop_plain by blast
  then show ?thesis
    by (simp add: minify_def plain_scan_def init_state_def prev_at_def)
qed

lemma plain_scan_snoc: "plain_scan (s @ [c]) = plain_step (plain_scan s) c"
  by (simp add: plain_scan_def)

lemma isspace_facts:
  "isspace (CHR '' '')" "\<not> isspace (CHR 0x5C)" "\<not> isspace (CHR ''/'')"
  "\<not> is_quote (CHR '' '')"
  by (simp_all add: isspace_def is_quote_def)

lemma is_quote_not_space: "is_quote c \<Longrightarrow> \<not> isspace c"
  by (auto simp: is_quote_def isspace_def)

lemma settled_step:
  assumes "settled s"
  shows "settled (plain_step s c)"
proof -
  obtain ins sc prev buf where s: "s = (ins, sc, prev, buf)" by (cases s) auto
  from assms s have fx: "plain_scan buf = (ins, sc, last_option buf, buf)"
    and lk: "linked ins prev buf"
    and hd: "if buf = [] then \<not> ins else \<not> isspace (hd buf)"
    by (simp_all add: settled_def)
  have act: "(prev \<noteq> Some (CHR 0x5C)) = (last_option buf \<noteq> Some (CHR 0x5C))"
    using lk isspace_facts(2)
    by (auto simp: linked_def last_option_def split: option.splits)
  have app: "\<And>x. plain_scan (buf @ [x]) = plain_step (ins, sc, last_option buf, buf) x"
    by (simp add: plain_scan_snoc fx)
  show ?thesis
  proof (cases "is_quote c \<and> prev \<noteq> Some (CHR 0x5C)")
    case True
    with act have "is_quote c \<and> last_option buf \<noteq> Some (CHR 0x5C)" by simp
    with True hd show ?thesis
      unfolding s
      by (auto simp: settled_def plain_step_def app linked_def last_option_def
          is_quote_not_space hd_append)
  next
    case False
    note nq = this
    with act have nq2: "\<not> (is_quote c \<and> last_option buf \<noteq> Some (CHR 0x5C))" by simp
    show ?thesis
    proof (cases "isspace c \<and> \<not> ins")
      case True
      show ?thesis
      proof (cases "buf \<noteq> [] \<and> \<not> isspace (last buf)")
        case True
        with \<open>isspace c \<and> \<not> ins\<close> nq hd isspace_facts show ?thesis
          unfolding s
          by (auto simp: settled_def plain_step_def app linked_def last_option_def hd_append)
      next
        case False
        with \<open>isspace c \<and> \<not> ins\<close> nq hd fx show ?thesis
          unfolding s
          by (auto simp: settled_def plain_step_def linked_def)
      qed
    next
      case False
      have "buf = [] \<longrightarrow> \<not> isspace c" using False hd by auto
      with False nq nq2 hd show ?thesis
        unfolding s
        by (auto simp: settled_def plain_step_def app linked_def last_option_def hd_append)
    qed
  qed
qed

lemma settled_scan: "settled (plain_scan s)"
proof (induction s rule: rev_induct)
  case Nil
  show ?case by (simp add: plain_scan_def settled_def linked_def last_option_def)
next
  case (snoc c s)
  then show ?case by (simp add: plain_scan_snoc settled_step)
qed

lemma plain_scan_prev:
  "fst (snd (snd (plain_scan s))) = last_option s"
proof (induction s rule: rev_induct)
  case Nil
  show ?case by (simp add: plain_scan_def last_option_def)
next
  case (snoc c s)
  obtain ins sc prev buf where "plain_scan s = (ins, sc, prev, buf)"
    by (cases "plain_scan s") auto
  then show ?case
    by (simp add: plain_scan_snoc plain_step_def last_option_def)
qed

lemma no_comments_snoc:
  "no_comments (s @ [c]) =
     (no_comments s \<and> \<not> (last_option s = Some (CHR ''/'') \<and> (c = CHR ''/'' \<or> c = CHR ''*'')))"
proof -
  have "\<And>a b. Sublist.suffix [a, b] (s @ [c]) = (last_option s = Some a \<and> c = b)"
  proof -
    fix a b
    have "Sublist.suffix ([a] @ [b]) (s @ [c]) = (Sublist.suffix [a] s \<and> b = c)"
      by (simp only: snoc_suffix_snoc) auto
    moreover have "Sublist.suffix [a] s = (last_option s = Some a)"
      by (cases s rule: rev_cases) (auto simp: last_option_def suffix_def)
    ultimately show "Sublist.suffix [a, b] (s @ [c]) = (last_option s = Some a \<and> c = b)"
      by auto
  qed
  then show ?thesis
    by (auto simp: no_comments_def sublist_snoc)
qed

lemma plain_scan_no_comments:
  assumes "no_comments s"
  shows "no_comments (plain_buffer (plain_scan s))"
  using assms
proof (induction s rule: rev_induct)
  case Nil
  show ?case by (simp add: plain_scan_def plain_buffer_def no_comments_def)
next
  case (snoc c s)
  obtain ins sc prev buf where ps: "plain_scan s = (ins, sc, prev, buf)"
    by (cases "plain_scan s") auto
  from snoc.prems have ns: "no_comments s"
    and np: "\<not> (last_option s = Some (CHR ''/'') \<and> (c = CHR ''/'' \<or> c = CHR ''*''))"
    by (simp_all add: no_comments_snoc)
  from ns snoc.IH ps have nb: "no_comments buf" by (simp add: plain_buffer_def)
  have prev: "prev = last_option s" using plain_scan_prev [of s] ps by simp
  have "settled (plain_scan s)" by (rule settled_scan)
  with ps have lk: "linked ins prev buf" by (simp add: settled_def)
  have keep: "no_comments (buf @ [c])"
    using nb np lk prev isspace_facts(3)
    by (auto simp: no_comments_snoc linked_def last_option_def split: option.splits)
  have sp: "no_comments (buf @ '' '')"
    using nb by (simp add: no_comments_snoc)
  show ?case
    using nb keep sp
    by (simp add: plain_scan_snoc ps plain_step_def plain_buffer_def)
qed

lemma plain_step_grows:
  "\<exists>ys. plain_buffer (plain_step s c) = plain_buffer s @ ys \<and> length ys \<le> 1"
proof -
  obtain ins sc prev buf where "s = (ins, sc, prev, buf)" by (cases s) auto
  then show ?thesis by (simp add: plain_step_def plain_buffer_def)
qed

lemma plain_fold_grows:
  "\<exists>ys. plain_buffer (foldl plain_step s xs) = plain_buffer s @ ys \<and> length ys \<le> length xs"
proof (induction xs arbitrary: s)
  case Nil
  show ?case by simp
next
  case (Cons x xs)
  obtain ys1 where y1: "plain_buffer (plain_step s x) = plain_buffer s @ ys1" "length ys1 \<le> 1"
    using plain_step_grows by blast
  obtain ys2 where y2: "plain_buffer (foldl plain_step (plain_step s x) xs)
      = plain_buffer (plain_step s x) @ ys2" "length ys2 \<le> length xs"
    using Cons by blast
  from y1 y2 have "plain_buffer (foldl plain_step s (x # xs)) = plain_buffer s @ (ys1 @ ys2)
      \<and> length (ys1 @ ys2) \<le> length (x # xs)"
    by simp
  then show ?case by blast
qed

lemma fixed_prefix:
  assumes "plain_buffer (plain_scan (p @ q)) = p @ q"
  shows "plain_buffer (plain_scan p) = p"
proof -
  obtain ys1 where y1: "plain_buffer (plain_scan p) = ys1" "length ys1 \<le> length p"
    using plain_fold_grows [of "(False, None, None, [])" p]
    by (auto simp: plain_scan_def plain_buffer_def)
  obtain ys2 where y2: "plain_buffer (foldl plain_step (plain_scan p) q)
      = plain_buffer (plain_scan p) @ ys2" "length ys2 \<le> length q"
    using plain_fold_grows by blast
  have "plain_scan (p @ q) = foldl plain_step (plain_scan p) q"
    by (simp add: plain_scan_def)
  with assms y1 y2 have eq: "ys1 @ ys2 = p @ q" by simp
  then have "length ys1 + length ys2 = length p + length q"
    by (metis length_append)
  with y1(2) y2(2) have "length ys1 = length p" by arith
  with eq have "ys1 = p" by simp
  with y1 show ?thesis by simp
qed

lemma strip_parts:
  "\<exists>ws1 ws2. s = ws1 @ strip s @ ws2 \<and> (s \<noteq> [] \<and> \<not> isspace (hd s) \<longrightarrow> ws1 = [])"
proof -
  let ?t = "dropWhile isspace s"
  have a: "s = takeWhile isspace s @ ?t" by simp
  have "rev ?t = takeWhile isspace (rev ?t) @ dropWhile isspace (rev ?t)" by simp
  then have "rev (rev ?t) = rev (dropWhile isspace (rev ?t)) @ rev (takeWhile isspace (rev ?t))"
    by (metis rev_append)
  then have b: "?t = strip s @ rev (takeWhile isspace (rev ?t))"
    by (simp add: strip_def)
  have c: "s \<noteq> [] \<and> \<not> isspace (hd s) \<longrightarrow> takeWhile isspace s = []"
    by (cases s) auto
  from a b have "s = takeWhile isspace s @ strip s @ rev (takeWhile isspace (rev ?t))"
    by simp
  with c show ?thesis by blast
qed

lemma strip_ends:
  "strip s = [] \<or> (\<not> isspace (hd (strip s)) \<and> \<not> isspace (last (strip s)))"
proof (cases "strip s = []")
  case True
  then show ?thesis by simp
next
  case False
  let ?t = "dropWhile isspace s"
  let ?u = "dropWhile isspace (rev ?t)"
  from False have u: "?u \<noteq> []" by (simp add: strip_def)
  have t: "?t \<noteq> []"
  proof
    assume "?t = []"
    with u show False by simp
  qed
  have l: "\<not> isspace (hd ?u)" using u by (rule hd_dropWhile)
  have "last (strip s) = hd ?u" using u by (simp add: strip_def last_rev)
  with l have e: "\<not> isspace (last (strip s))" by simp
  have "\<not> isspace (hd ?t)" using t by (rule hd_dropWhile)
  moreover obtain ws where "?t = strip s @ ws"
    by (metis rev_append rev_rev_ident strip_def takeWhile_dropWhile_id)
  ultimately have "\<not> isspace (hd (strip s))" using False by (simp add: hd_append)
  with e show ?thesis by simp
qed

lemma strip_strip: "strip (strip s) = strip s"
proof (cases "strip s = []")
  case True
  have "strip [] = []" by (simp add: strip_def)
  with True show ?thesis by simp
next
  case False
  with strip_ends [of s] have h: "\<not> isspace (hd (strip s))" and l: "\<not> isspace (last (strip s))"
    by simp_all
  from False h have "dropWhile isspace (strip s) = strip s"
    by (cases "strip s") auto
  moreover from False l have "dropWhile isspace (rev (strip s)) = rev (strip s)"
    by (cases "strip s" rule: rev_cases) auto
  ultimately show ?thesis by (simp add: strip_def [of "strip s"])
qed

lemma no_comments_sublist:
  assumes "no_comments s" "sublist t s"
  shows "no_comments t"
  using assms sublist_order.order.trans by (auto simp: no_comments_def)

lemma minify_idempotent:
  assumes "no_comments content"
  shows "\<exists>r. minify content = Some r \<and> minify r = Some r"
proof -
  let ?b = "plain_buffer (plain_scan content)"
  let ?r = "strip ?b"
  have m1: "minify content = Some ?r" using assms by (rule minify_plain)
  have nb: "no_comments ?b" using assms by (rule plain_scan_no_comments)
  obtain ins sc prev where ps: "plain_scan content = (ins, sc, prev, ?b)"
    by (cases "plain_scan content") (auto simp: plain_buffer_def)
  have "settled (plain_scan content)" by (rule settled_scan)
  with ps have fx: "plain_buffer (plain_scan ?b) = ?b"
    and hd: "?b \<noteq> [] \<longrightarrow> \<not> isspace (hd ?b)"
    by (auto simp: settled_def plain_buffer_def split: if_splits)
  obtain ws1 ws2 where parts: "?b = ws1 @ ?r @ ws2"
    and w1: "?b \<noteq> [] \<and> \<not> isspace (hd ?b) \<longrightarrow> ws1 = []"
    using strip_parts by blast
  have pre: "?b = ?r @ ws2"
  proof (cases "?b = []")
    case True
    with parts show ?thesis by simp
  next
    case False
    with hd w1 have "ws1 = []" by simp
    with parts show ?thesis by simp
  qed
  have "plain_buffer (plain_scan (?r @ ws2)) = ?r @ ws2"
    using fx pre by simp
  then have fr: "plain_buffer (plain_scan ?r) = ?r" by (rule fixed_prefix)
  have "sublist ?r ?b" using pre by (metis sublist_append_rightI)
  with nb have nr: "no_comments ?r" by (rule no_comments_sublist)
  then have "minify ?r = Some (strip (plain_buffer (plain_scan ?r)))" by (rule minify_plain)
  with fr have "minify ?r = Some ?r" by (simp add: strip_strip)
  with m1 show ?thesis by blast
qed

text \<open>
  Claim C2. For a file of a structured type and a content with balanced quotes and without
  comment sequences, \<open>process_file_content\<close> returns a text that it maps to itself.
\<close>

theorem normalization_idempotent:
  assumes "lower (path_suffix file) \<in> set [''.dart'', ''.yaml'', ''.json'']"
    and "balanced_quotes content"
    and "no_comments content"
  shows "\<exists>r. process_file_content json_compact file content = Some ([], r) \<and>
     process_file_content json_compact file r = Some ([], r)"
proof -
  from assms(3) obtain r where "minify content = Some r" "minify r = Some r"
    using minify_idempotent by blast
  with assms(1) show ?thesis by (simp add: process_file_content_def)
qed

theorem normalization_idempotent_witness:
  "lower (path_suffix [''lib'', ''a.dart'']) \<in> set [''.dart'', ''.yaml'', ''.json''] \<and>
   balanced_quotes ''  f( \"a  b\" ,  'c' )  '' \<and>
   no_comments ''  f( \"a  b\" ,  'c' )  '' \<and>
   (\<exists>r. process_file_content (\<lambda>_. None) [''lib'', ''a.dart''] ''  f( \"a  b\" ,  'c' )  ''
        = Some ([], r) \<and>
      process_file_content (\<lambda>_. None) [''lib'', ''a.dart''] r = Some ([], r))"
proof -
  have h1: "lower (path_suffix [''lib'', ''a.dart'']) \<in> set [''.dart'', ''.yaml'', ''.json'']"
    by code_simp
  have h2: "balanced_quotes ''  f( \"a  b\" ,  'c' )  ''"
    by code_simp
  have h3: "no_comments ''  f( \"a  b\" ,  'c' )  ''"
    by code_simp
  from normalization_idempotent [OF h1 h2 h3] h1 h2 h3 show ?thesis by blast
qed

end
